theory Spec2Isabelle
  imports Main
begin

section \<open>Memory model of \<^verbatim>\<open>go-weave/models/rescan.go\<close>\<close>

text \<open>
  A pointer is an index into \<^verbatim>\<open>mem\<close>; 0 is the nil pointer.  Every pointer the program
  creates is \<^verbatim>\<open>0\<close> or \<^verbatim>\<open>ptr(x-1) + globalRoot\<close> with \<^verbatim>\<open>x \<ge> 1\<close>, or a copy of one, so
  the Go type \<^verbatim>\<open>ptr int\<close> is modelled by the natural numbers.
\<close>

type_synonym ptr = nat

record obj =
  l :: ptr
  r :: ptr

definition numThreads :: nat where
  "numThreads = 2"

definition stackBase :: ptr where
  "stackBase = 1"

definition globalRoot :: ptr where
  "globalRoot = stackBase + numThreads"

text \<open>
  The two build-time switches of the write barrier.  In the source they are the constants
  \<^verbatim>\<open>writeMarks = true\<close> and \<^verbatim>\<open>writeRestarts = false\<close>; the model takes them as a
  parameter so that both policies can be examined.
\<close>

record config =
  writeMarks :: bool
  writeRestarts :: bool

definition source_config :: config where
  "source_config = \<lparr>writeMarks = True, writeRestarts = False\<rparr>"

text \<open>
  Every way the Go program can stop with a panic: the explicit panic of \<^verbatim>\<open>checkmark\<close>,
  the explicit panic at the end of \<^verbatim>\<open>ambReachableHeapPointer\<close>, a slice index out of
  range, and the release of a lock that is not held.
\<close>

datatype fault =
    ObjectNotMarked ptr
  | NotReached
  | IndexOutOfRange
  | UnlockOfUnlocked

section \<open>The ambiguous-choice primitive\<close>

text \<open>
  Modelled from the spec: \<^verbatim>\<open>sched.Amb(n)\<close> (the exploration engine is not part of the
  sources) returns an integer in \<open>[0, n)\<close>.  The engine's raw choice is the number \<open>c\<close>;
  reducing it modulo \<open>n\<close> yields every value of \<open>[0, n)\<close> and nothing else.
\<close>

definition Amb :: "nat \<Rightarrow> nat \<Rightarrow> nat" where
  "Amb c n = c mod n"

text \<open>
  \<^verbatim>\<open>ambHeapPointer\<close>: nil or an ambiguous heap pointer.  The bound
  \<^verbatim>\<open>len(mem) - int(globalRoot) + 1\<close> is written with the addition first, which is the same
  number whenever the heap region is not empty.
\<close>

definition ambHeapPointer :: "obj list \<Rightarrow> nat \<Rightarrow> ptr" where
  "ambHeapPointer hp c =
     (let x = Amb c (length hp + 1 - globalRoot)
      in if x = 0 then 0 else (x - 1) + globalRoot)"

section \<open>The mark engine as a function (no scheduling points)\<close>

text \<open>
  \<^verbatim>\<open>mark(p, marked, name)\<close> with \<^verbatim>\<open>name == ""\<close>: no call of \<^verbatim>\<open>sched.Sched\<close> is made,
  so the whole recursion is one uninterrupted computation over the mark array that was
  passed in.  An index outside the array is Go's run-time panic.
\<close>

function mark :: "obj list \<Rightarrow> ptr \<Rightarrow> bool list \<Rightarrow> fault + bool list" where
  "mark hp p mk =
     (if p = 0 then Inr mk
      else if \<not> p < length mk then Inl IndexOutOfRange
      else if mk ! p then Inr mk
      else if \<not> p < length hp then Inl IndexOutOfRange
      else (case mark hp (l (hp ! p)) (mk[p := True]) of
              Inl e \<Rightarrow> Inl e
            | Inr mk1 \<Rightarrow> mark hp (r (hp ! p)) mk1))"
  by pat_completeness auto

definition unset :: "bool list \<Rightarrow> nat" where
  "unset mk = card {i. i < length mk \<and> \<not> mk ! i}"

lemma unset_mono:
  assumes "length mk' = length mk" and "\<And>i. i < length mk \<Longrightarrow> mk ! i \<Longrightarrow> mk' ! i"
  shows "unset mk' \<le> unset mk"
  unfolding unset_def using assms by (intro card_mono) auto

lemma unset_update:
  assumes "p < length mk" and "\<not> mk ! p"
  shows "unset (mk[p := True]) < unset mk"
proof -
  let ?S = "{i. i < length mk \<and> \<not> mk ! i}"
  have fin: "finite ?S" by simp
  have sub: "{i. i < length (mk[p := True]) \<and> \<not> mk[p := True] ! i} \<subseteq> ?S - {p}"
    using assms by (auto simp: nth_list_update split: if_splits)
  have pin: "p \<in> ?S"
    using assms by simp
  have "card {i. i < length (mk[p := True]) \<and> \<not> mk[p := True] ! i} \<le> card (?S - {p})"
    by (rule card_mono[OF _ sub]) (simp add: fin)
  also have "card (?S - {p}) < card ?S"
    by (rule card_Diff1_less[OF fin pin])
  finally show ?thesis
    by (simp add: unset_def)
qed

lemma mark_dom_grows:
  "mark_dom (hp, p, mk) \<Longrightarrow> mark hp p mk = Inr mk' \<Longrightarrow>
     length mk' = length mk \<and> (\<forall>i < length mk. mk ! i \<longrightarrow> mk' ! i)"
proof (induction hp p mk arbitrary: mk' rule: mark.pinduct)
  case (1 hp p mk)
  show ?case
  proof (cases "p = 0 \<or> \<not> p < length mk \<or> mk ! p \<or> \<not> p < length hp")
    case True
    with "1.prems" "1.hyps" show ?thesis
      by (auto simp: mark.psimps split: if_splits)
  next
    case False
    then obtain mk1 where m1: "mark hp (l (hp ! p)) (mk[p := True]) = Inr mk1"
      and m2: "mark hp (r (hp ! p)) mk1 = Inr mk'"
      using "1.prems" "1.hyps" by (auto simp: mark.psimps split: sum.splits)
    from False have a: "length mk1 = length (mk[p := True]) \<and>
        (\<forall>i < length (mk[p := True]). mk[p := True] ! i \<longrightarrow> mk1 ! i)"
      using "1.IH"(1)[OF _ _ _ _ m1] by simp
    from False have b: "length mk' = length mk1 \<and> (\<forall>i < length mk1. mk1 ! i \<longrightarrow> mk' ! i)"
      using "1.IH"(2)[OF _ _ _ _ m1 m2] by simp
    from False have "\<And>i. i < length mk \<Longrightarrow> mk ! i \<Longrightarrow> mk[p := True] ! i"
      by (simp add: nth_list_update)
    with a b show ?thesis
      by auto
  qed
qed

termination mark
proof (relation "measure (\<lambda>(hp, p, mk). unset mk)")
  show "wf (measure (\<lambda>(hp, p, mk). unset mk))" by simp
next
  fix hp :: "obj list" and p :: ptr and mk :: "bool list"
  assume "p \<noteq> 0" "\<not> \<not> p < length mk" "\<not> mk ! p" "\<not> \<not> p < length hp"
  then show "((hp, l (hp ! p), mk[p := True]), hp, p, mk) \<in> measure (\<lambda>(hp, p, mk). unset mk)"
    by (simp add: unset_update)
next
  fix hp :: "obj list" and p :: ptr and mk x2 :: "bool list"
  assume a: "p \<noteq> 0" "\<not> \<not> p < length mk" "\<not> mk ! p" "\<not> \<not> p < length hp"
    and m1: "mark hp (l (hp ! p)) (mk[p := True]) = Inr x2"
    and d: "mark_dom (hp, l (hp ! p), mk[p := True])"
  from mark_dom_grows[OF d m1]
  have g: "length x2 = length (mk[p := True])"
    and h: "\<And>i. i < length (mk[p := True]) \<Longrightarrow> mk[p := True] ! i \<Longrightarrow> x2 ! i"
    by blast+
  have "unset x2 \<le> unset (mk[p := True])"
    by (rule unset_mono[OF g h])
  moreover have "unset (mk[p := True]) < unset mk"
    using a by (intro unset_update) simp_all
  ultimately show "((hp, r (hp ! p), x2), hp, p, mk) \<in> measure (\<lambda>(hp, p, mk). unset mk)"
    by simp
qed

declare mark.simps [simp del]


text \<open>The mark array only grows, and keeps its length.\<close>

lemma mark_grows:
  "mark hp p mk = Inr mk' \<Longrightarrow>
     length mk' = length mk \<and> (\<forall>i < length mk. mk ! i \<longrightarrow> mk' ! i)"
proof (induction hp p mk arbitrary: mk' rule: mark.induct)
  case (1 hp p mk)
  show ?case
  proof (cases "p = 0 \<or> \<not> p < length mk \<or> mk ! p \<or> \<not> p < length hp")
    case True
    with "1.prems" show ?thesis
      by (auto simp: mark.simps[of hp p mk] split: if_splits)
  next
    case False
    then obtain mk1 where m1: "mark hp (l (hp ! p)) (mk[p := True]) = Inr mk1"
      and m2: "mark hp (r (hp ! p)) mk1 = Inr mk'"
      using "1.prems" by (auto simp: mark.simps[of hp p mk] split: sum.splits)
    from False have a: "length mk1 = length (mk[p := True]) \<and>
        (\<forall>i < length (mk[p := True]). mk[p := True] ! i \<longrightarrow> mk1 ! i)"
      using "1.IH"(1)[OF _ _ _ _ m1] by simp
    from False have b: "length mk' = length mk1 \<and> (\<forall>i < length mk1. mk1 ! i \<longrightarrow> mk' ! i)"
      using "1.IH"(2)[OF _ _ _ _ m1 m2] by simp
    from False have "\<And>i. i < length mk \<Longrightarrow> mk ! i \<Longrightarrow> mk[p := True] ! i"
      by (simp add: nth_list_update)
    with a b show ?thesis
      by auto
  qed
qed

lemma mark_length: "mark hp p mk = Inr mk' \<Longrightarrow> length mk' = length mk"
  using mark_grows by blast

lemma mark_mono: "mark hp p mk = Inr mk' \<Longrightarrow> i < length mk \<Longrightarrow> mk ! i \<Longrightarrow> mk' ! i"
  using mark_grows by blast

text \<open>After a successful call the root itself is marked (unless it is nil).\<close>

lemma mark_root: "mark hp p mk = Inr mk' \<Longrightarrow> p \<noteq> 0 \<Longrightarrow> mk' ! p"
proof -
  assume m: "mark hp p mk = Inr mk'" and p: "p \<noteq> 0"
  show "mk' ! p"
  proof (cases "\<not> p < length mk \<or> mk ! p \<or> \<not> p < length hp")
    case True
    with m p show ?thesis
      by (auto simp: mark.simps[of hp p mk] split: if_splits)
  next
    case False
    then obtain mk1 where m1: "mark hp (l (hp ! p)) (mk[p := True]) = Inr mk1"
      and m2: "mark hp (r (hp ! p)) mk1 = Inr mk'"
      using m p by (auto simp: mark.simps[of hp p mk] split: sum.splits)
    from False have "mk[p := True] ! p" by simp
    with mark_mono[OF m1, of p] False have "mk1 ! p" by simp
    moreover have "length mk1 = length mk" using mark_length[OF m1] by simp
    ultimately show ?thesis
      using mark_mono[OF m2, of p] False by simp
  qed
qed

text \<open>
  A memory is well formed when every pointer field is an index of the memory.
\<close>

definition wf_mem :: "obj list \<Rightarrow> bool" where
  "wf_mem hp = list_all (\<lambda>ob. l ob < length hp \<and> r ob < length hp) hp"

lemma wf_memD:
  "wf_mem hp \<Longrightarrow> p < length hp \<Longrightarrow> l (hp ! p) < length hp \<and> r (hp ! p) < length hp"
  by (simp add: wf_mem_def list_all_length)

text \<open>On a well-formed memory the mark engine never panics.\<close>

lemma mark_total:
  "wf_mem hp \<Longrightarrow> length mk = length hp \<Longrightarrow> p < length hp \<Longrightarrow> \<exists>mk'. mark hp p mk = Inr mk'"
proof (induction hp p mk rule: mark.induct)
  case (1 hp p mk)
  show ?case
  proof (cases "p = 0 \<or> mk ! p")
    case True
    with "1.prems" show ?thesis
      by (auto simp: mark.simps[of hp p mk])
  next
    case False
    with "1.prems" have c: "p \<noteq> 0" "\<not> \<not> p < length mk" "\<not> mk ! p" "\<not> \<not> p < length hp"
      by auto
    from wf_memD[OF "1.prems"(1,3)] have lr: "l (hp ! p) < length hp" "r (hp ! p) < length hp"
      by auto
    from "1.IH"(1)[OF c "1.prems"(1) _ lr(1)] "1.prems"(2)
    obtain mk1 where m1: "mark hp (l (hp ! p)) (mk[p := True]) = Inr mk1"
      by auto
    have "length mk1 = length hp"
      using mark_length[OF m1] "1.prems"(2) by simp
    from "1.IH"(2)[OF c m1 "1.prems"(1) this lr(2)]
    obtain mk2 where m2: "mark hp (r (hp ! p)) mk1 = Inr mk2"
      by auto
    from c m1 m2 show ?thesis
      by (simp add: mark.simps[of hp p mk])
  qed
qed

text \<open>
  Soundness of marking: if \<open>P\<close> holds of the root and of every index marked before, and
  is passed on from an object to its two fields, then it holds of every index marked
  afterwards.
\<close>

lemma mark_sound:
  assumes "mark hp p mk = Inr mk'"
    and "\<forall>q. P q \<longrightarrow> q \<noteq> 0 \<longrightarrow> q < length hp \<longrightarrow> P (l (hp ! q)) \<and> P (r (hp ! q))"
    and "P p"
    and "\<forall>i < length mk. mk ! i \<longrightarrow> P i"
  shows "\<forall>i < length mk'. mk' ! i \<longrightarrow> P i"
  using assms
proof (induction hp p mk arbitrary: mk' rule: mark.induct)
  case (1 hp p mk)
  note cl = "1.prems"(2)
  show ?case
  proof (cases "p = 0 \<or> \<not> p < length mk \<or> mk ! p \<or> \<not> p < length hp")
    case True
    with "1.prems"(1,4) show ?thesis
      by (auto simp: mark.simps[of hp p mk] split: if_splits)
  next
    case False
    then have c: "p \<noteq> 0" "\<not> \<not> p < length mk" "\<not> mk ! p" "\<not> \<not> p < length hp"
      by auto
    from False obtain mk1 where m1: "mark hp (l (hp ! p)) (mk[p := True]) = Inr mk1"
      and m2: "mark hp (r (hp ! p)) mk1 = Inr mk'"
      using "1.prems"(1) by (auto simp: mark.simps[of hp p mk] split: sum.splits)
    have lr: "P (l (hp ! p))" "P (r (hp ! p))"
      using cl "1.prems"(3) c by auto
    have upd: "\<forall>j < length (mk[p := True]). mk[p := True] ! j \<longrightarrow> P j"
      using "1.prems"(3,4) c by (auto simp: nth_list_update split: if_splits)
    have P1: "\<forall>j < length mk1. mk1 ! j \<longrightarrow> P j"
      using "1.IH"(1)[OF c m1 cl lr(1) upd] .
    show ?thesis
      using "1.IH"(2)[OF c m1 m2 cl lr(2) P1] .
  qed
qed

section \<open>The invariant checker\<close>

text \<open>
  \<^verbatim>\<open>checkmark(p)\<close> allocates a fresh array \<^verbatim>\<open>checkmarked\<close> and runs the local closure
  \<^verbatim>\<open>mark1\<close>, which panics with \<^verbatim>\<open>"object not marked"\<close> at the first visited object
  whose bit in the global mark array \<open>mk\<close> is false.  \<^verbatim>\<open>mark1\<close> never yields.
\<close>

function mark1 :: "obj list \<Rightarrow> bool list \<Rightarrow> ptr \<Rightarrow> bool list \<Rightarrow> fault + bool list" where
  "mark1 hp mk p cm =
     (if p = 0 then Inr cm
      else if \<not> p < length mk then Inl IndexOutOfRange
      else if \<not> mk ! p then Inl (ObjectNotMarked p)
      else if \<not> p < length cm then Inl IndexOutOfRange
      else if cm ! p then Inr cm
      else if \<not> p < length hp then Inl IndexOutOfRange
      else (case mark1 hp mk (l (hp ! p)) (cm[p := True]) of
              Inl e \<Rightarrow> Inl e
            | Inr cm1 \<Rightarrow> mark1 hp mk (r (hp ! p)) cm1))"
  by pat_completeness auto

lemma mark1_dom_grows:
  "mark1_dom (hp, mk, p, cm) \<Longrightarrow> mark1 hp mk p cm = Inr cm' \<Longrightarrow>
     length cm' = length cm \<and> (\<forall>i < length cm. cm ! i \<longrightarrow> cm' ! i)"
proof (induction hp mk p cm arbitrary: cm' rule: mark1.pinduct)
  case (1 hp mk p cm)
  show ?case
  proof (cases "p = 0 \<or> \<not> p < length mk \<or> \<not> mk ! p \<or> \<not> p < length cm \<or> cm ! p
                 \<or> \<not> p < length hp")
    case True
    with "1.prems" "1.hyps" show ?thesis
      by (auto simp: mark1.psimps split: if_splits)
  next
    case False
    then obtain cm1 where m1: "mark1 hp mk (l (hp ! p)) (cm[p := True]) = Inr cm1"
      and m2: "mark1 hp mk (r (hp ! p)) cm1 = Inr cm'"
      using "1.prems" "1.hyps" by (auto simp: mark1.psimps split: sum.splits)
    from False have a: "length cm1 = length (cm[p := True]) \<and>
        (\<forall>i < length (cm[p := True]). cm[p := True] ! i \<longrightarrow> cm1 ! i)"
      using "1.IH"(1)[OF _ _ _ _ _ _ m1] by simp
    from False have b: "length cm' = length cm1 \<and> (\<forall>i < length cm1. cm1 ! i \<longrightarrow> cm' ! i)"
      using "1.IH"(2)[OF _ _ _ _ _ _ m1 m2] by simp
    from False have "\<And>i. i < length cm \<Longrightarrow> cm ! i \<Longrightarrow> cm[p := True] ! i"
      by (simp add: nth_list_update)
    with a b show ?thesis
      by auto
  qed
qed

termination mark1
proof (relation "measure (\<lambda>(hp, mk, p, cm). unset cm)")
  show "wf (measure (\<lambda>(hp, mk, p, cm). unset cm))" by simp
next
  fix hp :: "obj list" and mk :: "bool list" and p :: ptr and cm :: "bool list"
  assume "p \<noteq> 0" "\<not> \<not> p < length mk" "\<not> \<not> mk ! p" "\<not> \<not> p < length cm" "\<not> cm ! p"
    "\<not> \<not> p < length hp"
  then show "((hp, mk, l (hp ! p), cm[p := True]), hp, mk, p, cm)
      \<in> measure (\<lambda>(hp, mk, p, cm). unset cm)"
    by (simp add: unset_update)
next
  fix hp :: "obj list" and mk :: "bool list" and p :: ptr and cm x2 :: "bool list"
  assume a: "p \<noteq> 0" "\<not> \<not> p < length mk" "\<not> \<not> mk ! p" "\<not> \<not> p < length cm" "\<not> cm ! p"
      "\<not> \<not> p < length hp"
    and m1: "mark1 hp mk (l (hp ! p)) (cm[p := True]) = Inr x2"
    and d: "mark1_dom (hp, mk, l (hp ! p), cm[p := True])"
  from mark1_dom_grows[OF d m1]
  have g: "length x2 = length (cm[p := True])"
    and h: "\<And>i. i < length (cm[p := True]) \<Longrightarrow> cm[p := True] ! i \<Longrightarrow> x2 ! i"
    by blast+
  have "unset x2 \<le> unset (cm[p := True])"
    by (rule unset_mono[OF g h])
  moreover have "unset (cm[p := True]) < unset cm"
    using a by (intro unset_update) simp_all
  ultimately show "((hp, mk, r (hp ! p), x2), hp, mk, p, cm)
      \<in> measure (\<lambda>(hp, mk, p, cm). unset cm)"
    by simp
qed

declare mark1.simps [simp del]

definition checkmark :: "obj list \<Rightarrow> bool list \<Rightarrow> ptr \<Rightarrow> fault + unit" where
  "checkmark hp mk p =
     (case mark1 hp mk p (replicate (length hp) False) of
        Inl e \<Rightarrow> Inl e
      | Inr cm \<Rightarrow> Inr ())"

text \<open>
  The objects reachable from a root: the reflexive-transitive closure of the two field
  edges.  The nil slot 0 is not an object and has no outgoing edge.
\<close>

definition edges :: "obj list \<Rightarrow> (ptr \<times> ptr) set" where
  "edges hp = {(p, q). p \<noteq> 0 \<and> p < length hp \<and> (q = l (hp ! p) \<or> q = r (hp ! p))}"

definition reach :: "obj list \<Rightarrow> ptr \<Rightarrow> ptr \<Rightarrow> bool" where
  "reach hp p q = (q \<noteq> 0 \<and> (p, q) \<in> (edges hp)\<^sup>*)"

lemma mark1_grows:
  "mark1 hp mk p cm = Inr cm' \<Longrightarrow>
     length cm' = length cm \<and> (\<forall>i < length cm. cm ! i \<longrightarrow> cm' ! i)"
proof (induction hp mk p cm arbitrary: cm' rule: mark1.induct)
  case (1 hp mk p cm)
  show ?case
  proof (cases "p = 0 \<or> \<not> p < length mk \<or> \<not> mk ! p \<or> \<not> p < length cm \<or> cm ! p
                 \<or> \<not> p < length hp")
    case True
    with "1.prems" show ?thesis
      by (auto simp: mark1.simps[of hp mk p cm] split: if_splits)
  next
    case False
    then obtain cm1 where m1: "mark1 hp mk (l (hp ! p)) (cm[p := True]) = Inr cm1"
      and m2: "mark1 hp mk (r (hp ! p)) cm1 = Inr cm'"
      using "1.prems" by (auto simp: mark1.simps[of hp mk p cm] split: sum.splits)
    from False have a: "length cm1 = length (cm[p := True]) \<and>
        (\<forall>i < length (cm[p := True]). cm[p := True] ! i \<longrightarrow> cm1 ! i)"
      using "1.IH"(1)[OF _ _ _ _ _ _ m1] by simp
    from False have b: "length cm' = length cm1 \<and> (\<forall>i < length cm1. cm1 ! i \<longrightarrow> cm' ! i)"
      using "1.IH"(2)[OF _ _ _ _ _ _ m1 m2] by simp
    from False have "\<And>i. i < length cm \<Longrightarrow> cm ! i \<Longrightarrow> cm[p := True] ! i"
      by (simp add: nth_list_update)
    with a b show ?thesis
      by auto
  qed
qed

text \<open>
  What a successful walk leaves behind: every index it newly set in \<^verbatim>\<open>checkmarked\<close>
  is marked globally and has both of its fields nil or set as well.
\<close>

definition closed_new :: "obj list \<Rightarrow> bool list \<Rightarrow> bool list \<Rightarrow> bool list \<Rightarrow> bool" where
  "closed_new hp mk cm cm' =
     (\<forall>q < length cm. cm' ! q \<and> \<not> cm ! q \<longrightarrow>
        mk ! q \<and> (l (hp ! q) = 0 \<or> cm' ! (l (hp ! q))) \<and> (r (hp ! q) = 0 \<or> cm' ! (r (hp ! q))))"

lemma mark1_inv:
  "mark1 hp mk p cm = Inr cm' \<Longrightarrow> wf_mem hp \<Longrightarrow> length cm = length hp \<Longrightarrow>
     (p = 0 \<or> (p < length hp \<and> cm' ! p)) \<and> closed_new hp mk cm cm'"
proof (induction hp mk p cm arbitrary: cm' rule: mark1.induct)
  case (1 hp mk p cm)
  note wf = "1.prems"(2) and len = "1.prems"(3)
  show ?case
  proof (cases "p = 0 \<or> \<not> p < length mk \<or> \<not> mk ! p \<or> \<not> p < length cm \<or> cm ! p
                 \<or> \<not> p < length hp")
    case True
    with "1.prems"(1) have "cm' = cm \<and> (p = 0 \<or> (p < length cm \<and> cm ! p))"
      by (auto simp: mark1.simps[of hp mk p cm] split: if_splits)
    then show ?thesis
      using len by (auto simp: closed_new_def)
  next
    case False
    then have c: "p \<noteq> 0" "\<not> \<not> p < length mk" "\<not> \<not> mk ! p" "\<not> \<not> p < length cm" "\<not> cm ! p"
        "\<not> \<not> p < length hp"
      by auto
    from False obtain cm1 where m1: "mark1 hp mk (l (hp ! p)) (cm[p := True]) = Inr cm1"
      and m2: "mark1 hp mk (r (hp ! p)) cm1 = Inr cm'"
      using "1.prems"(1) by (auto simp: mark1.simps[of hp mk p cm] split: sum.splits)
    have len0: "length (cm[p := True]) = length hp" using len by simp
    have g1: "length cm1 = length cm" "\<And>i. i < length cm \<Longrightarrow> cm[p := True] ! i \<Longrightarrow> cm1 ! i"
      using mark1_grows[OF m1] by auto
    have len1: "length cm1 = length hp" using g1(1) len by simp
    have g2: "length cm' = length cm" "\<And>i. i < length cm \<Longrightarrow> cm1 ! i \<Longrightarrow> cm' ! i"
      using mark1_grows[OF m2] g1(1) by auto
    have i1: "l (hp ! p) = 0 \<or> (l (hp ! p) < length hp \<and> cm1 ! (l (hp ! p)))"
      and cl1: "closed_new hp mk (cm[p := True]) cm1"
      using "1.IH"(1)[OF c m1 wf len0] by auto
    have i2: "r (hp ! p) = 0 \<or> (r (hp ! p) < length hp \<and> cm' ! (r (hp ! p)))"
      and cl2: "closed_new hp mk cm1 cm'"
      using "1.IH"(2)[OF c m1 m2 wf len1] by auto
    have pin: "cm' ! p"
      using g1(2)[of p] g2(2)[of p] c by simp
    have lrange: "\<And>q. q < length cm \<Longrightarrow> l (hp ! q) < length cm \<and> r (hp ! q) < length cm"
      using wf_memD[OF wf] len by simp
    have "closed_new hp mk cm cm'"
      unfolding closed_new_def
    proof (intro allI impI)
      fix q assume q: "q < length cm" and new: "cm' ! q \<and> \<not> cm ! q"
      show "mk ! q \<and> (l (hp ! q) = 0 \<or> cm' ! (l (hp ! q))) \<and> (r (hp ! q) = 0 \<or> cm' ! (r (hp ! q)))"
      proof (cases "q = p")
        case True
        have "l (hp ! p) = 0 \<or> cm' ! (l (hp ! p))"
          using i1 g2(2)[of "l (hp ! p)"] len by auto
        with True c i2 show ?thesis by auto
      next
        case False
        show ?thesis
        proof (cases "cm1 ! q")
          case True
          have "\<not> cm[p := True] ! q" using new False q by (simp add: nth_list_update)
          with cl1 True q have a: "mk ! q" "l (hp ! q) = 0 \<or> cm1 ! (l (hp ! q))"
            "r (hp ! q) = 0 \<or> cm1 ! (r (hp ! q))"
            by (auto simp: closed_new_def)
          show ?thesis
            using a g2(2)[of "l (hp ! q)"] g2(2)[of "r (hp ! q)"] lrange[OF q] by auto
        next
          case False
          with cl2 new q g1(1) show ?thesis
            by (auto simp: closed_new_def)
        qed
      qed
    qed
    with pin c show ?thesis by simp
  qed
qed

text \<open>On a well-formed memory the only panic of the walk is the explicit one, and it
  names an unmarked index that satisfies every property the walk preserves.\<close>

lemma mark1_fail:
  assumes "mark1 hp mk p cm = Inl e"
    and "wf_mem hp" and "length mk = length hp" and "length cm = length hp" and "p < length hp"
    and "\<forall>q. P q \<longrightarrow> q \<noteq> 0 \<longrightarrow> q < length hp \<longrightarrow> P (l (hp ! q)) \<and> P (r (hp ! q))"
    and "P p"
  shows "\<exists>q. e = ObjectNotMarked q \<and> q \<noteq> 0 \<and> q < length hp \<and> \<not> mk ! q \<and> P q"
  using assms
proof (induction hp mk p cm arbitrary: e rule: mark1.induct)
  case (1 hp mk p cm)
  note wf = "1.prems"(2) and lmk = "1.prems"(3) and lcm = "1.prems"(4) and pr = "1.prems"(5)
    and cl = "1.prems"(6) and Pp = "1.prems"(7)
  show ?case
  proof (cases "p = 0 \<or> \<not> mk ! p \<or> cm ! p")
    case True
    with "1.prems"(1) lmk lcm pr have "e = ObjectNotMarked p \<and> p \<noteq> 0 \<and> \<not> mk ! p"
      by (auto simp: mark1.simps[of hp mk p cm] split: if_splits)
    with pr Pp show ?thesis by blast
  next
    case False
    with lmk lcm pr have c: "p \<noteq> 0" "\<not> \<not> p < length mk" "\<not> \<not> mk ! p" "\<not> \<not> p < length cm"
        "\<not> cm ! p" "\<not> \<not> p < length hp"
      by auto
    have lr: "l (hp ! p) < length hp" "r (hp ! p) < length hp"
      using wf_memD[OF wf pr] by auto
    have Plr: "P (l (hp ! p))" "P (r (hp ! p))"
      using cl Pp c by auto
    have len0: "length (cm[p := True]) = length hp" using lcm by simp
    show ?thesis
    proof (cases "mark1 hp mk (l (hp ! p)) (cm[p := True])")
      case (Inl e1)
      with c "1.prems"(1) have "e = e1"
        by (simp add: mark1.simps[of hp mk p cm])
      with "1.IH"(1)[OF c Inl wf lmk len0 lr(1) cl Plr(1)] show ?thesis by simp
    next
      case (Inr cm1)
      with c "1.prems"(1) have m2: "mark1 hp mk (r (hp ! p)) cm1 = Inl e"
        by (simp add: mark1.simps[of hp mk p cm])
      have len1: "length cm1 = length hp"
        using mark1_grows[OF Inr] lcm by simp
      from "1.IH"(2)[OF c Inr m2 wf lmk len1 lr(2) cl Plr(2)] show ?thesis .
    qed
  qed
qed

lemma checkmark_complete:
  assumes ok: "checkmark hp mk p = Inr ()" and wf: "wf_mem hp" and q: "reach hp p q"
  shows "mk ! q"
proof -
  from ok obtain cm' where m: "mark1 hp mk p (replicate (length hp) False) = Inr cm'"
    by (auto simp: checkmark_def split: sum.splits)
  have len: "length cm' = length hp"
    using mark1_grows[OF m] by simp
  from mark1_inv[OF m wf] have root: "p = 0 \<or> (p < length hp \<and> cm' ! p)"
    and cl: "closed_new hp mk (replicate (length hp) False) cm'"
    by auto
  have new: "\<And>x. x < length hp \<Longrightarrow> cm' ! x \<Longrightarrow>
      mk ! x \<and> (l (hp ! x) = 0 \<or> cm' ! (l (hp ! x))) \<and> (r (hp ! x) = 0 \<or> cm' ! (r (hp ! x)))"
    using cl by (simp add: closed_new_def)
  from q have "(p, q) \<in> (edges hp)\<^sup>*" and q0: "q \<noteq> 0"
    by (auto simp: reach_def)
  then have "q = 0 \<or> (q < length hp \<and> cm' ! q)"
  proof (induction rule: rtrancl_induct)
    case base
    from root show ?case .
  next
    case (step y z)
    from step.hyps(2) have y: "y \<noteq> 0" "y < length hp" and z: "z = l (hp ! y) \<or> z = r (hp ! y)"
      by (auto simp: edges_def)
    from step.IH y have "cm' ! y" by (auto simp: edges_def)
    from new[OF y(2) this] z wf_memD[OF wf y(2)] show ?case
      by auto
  qed
  with q0 new show ?thesis by blast
qed

lemma checkmark_fail:
  assumes bad: "checkmark hp mk p = Inl e"
    and wf: "wf_mem hp" and lmk: "length mk = length hp" and pr: "p < length hp"
  shows "\<exists>q. e = ObjectNotMarked q \<and> reach hp p q \<and> \<not> mk ! q"
proof -
  from bad have m: "mark1 hp mk p (replicate (length hp) False) = Inl e"
    by (auto simp: checkmark_def split: sum.splits)
  have cl: "\<forall>q. (p, q) \<in> (edges hp)\<^sup>* \<longrightarrow> q \<noteq> 0 \<longrightarrow> q < length hp \<longrightarrow>
      (p, l (hp ! q)) \<in> (edges hp)\<^sup>* \<and> (p, r (hp ! q)) \<in> (edges hp)\<^sup>*"
    by (auto simp: edges_def intro: rtrancl_into_rtrancl)
  from mark1_fail[where P = "\<lambda>q. (p, q) \<in> (edges hp)\<^sup>*", OF m wf lmk _ pr cl]
  show ?thesis
    by (auto simp: reach_def)
qed

section \<open>Picking a reachable heap object\<close>

text \<open>
  The selection loop of \<^verbatim>\<open>ambReachableHeapPointer\<close> over \<^verbatim>\<open>reachable[globalRoot:]\<close>:
  \<open>i\<close> is the loop index and \<open>x\<close> the number of reachable entries still to skip.  Falling
  out of the loop is \<open>None\<close>.
\<close>

fun select :: "bool list \<Rightarrow> nat \<Rightarrow> nat \<Rightarrow> nat option" where
  "select [] i x = None"
| "select (m # ms) i x =
     (if m then (if x = 0 then Some i else select ms (Suc i) (x - 1))
      else select ms (Suc i) x)"

definition nreachable :: "bool list \<Rightarrow> nat" where
  "nreachable reachable = length (filter (\<lambda>m. m) (drop globalRoot reachable))"

definition ambReachableHeapPointer :: "obj list \<Rightarrow> nat \<Rightarrow> fault + ptr" where
  "ambReachableHeapPointer hp c =
     (case mark hp globalRoot (replicate (length hp) False) of
        Inl e \<Rightarrow> Inl e
      | Inr reachable \<Rightarrow>
          (let x = Amb c (nreachable reachable)
           in case select (drop globalRoot reachable) 0 x of
                None \<Rightarrow> Inl NotReached
              | Some i \<Rightarrow> Inr (globalRoot + i)))"

lemma select_some:
  "x < length (filter (\<lambda>m. m) ms) \<Longrightarrow> \<exists>j. select ms i x = Some (i + j) \<and> j < length ms \<and> ms ! j"
proof (induction ms arbitrary: i x)
  case Nil
  then show ?case by simp
next
  case (Cons m ms)
  show ?case
  proof (cases "m \<and> x = 0")
    case True
    then show ?thesis by auto
  next
    case False
    define x' where "x' = (if m then x - 1 else x)"
    have a: "x' < length (filter (\<lambda>m. m) ms)"
      using False Cons.prems by (cases m) (auto simp: x'_def)
    have b: "select (m # ms) i x = select ms (Suc i) x'"
      using False by (auto simp: x'_def)
    from Cons.IH[OF a, of "Suc i"] obtain j where
      "select ms (Suc i) x' = Some (Suc i + j)" "j < length ms" "ms ! j"
      by blast
    with b have "select (m # ms) i x = Some (i + Suc j) \<and> Suc j < length (m # ms) \<and> (m # ms) ! Suc j"
      by simp
    then show ?thesis by blast
  qed
qed

section \<open>The trial as a state machine\<close>

text \<open>
  Modelled from the spec: \<^verbatim>\<open>weave.RWMutex\<close> (the exploration engine is not part of the
  sources).  Several holders may have the shared mode at once; the exclusive mode is
  granted only when nobody holds the lock in either mode.
\<close>

record rwmutex =
  readers :: nat
  writer :: bool

text \<open>
  The code that a thread still has to run is a list of instructions, the next one first.
  A call pushes the body of the callee in front of the caller's remaining code.
  \<^item> \<open>Mark p\<close>: the call \<^verbatim>\<open>mark(p, marked, name)\<close> with a non-empty name;
  \<^item> \<open>MarkRight p\<close>: inside \<^verbatim>\<open>mark(p, ...)\<close>, the call \<^verbatim>\<open>mark(mem[p].r, marked, name)\<close>;
  \<^item> \<open>Sched\<close>: \<^verbatim>\<open>sched.Sched()\<close>;
  \<^item> \<open>GoLoop i\<close>: the loop of \<^verbatim>\<open>main\<close> that starts the mutators, at index \<open>i\<close>;
  \<^item> \<open>ScanLoop\<close>: the loop \<^verbatim>\<open>for scanClock < numThreads\<close> of \<^verbatim>\<open>main\<close>;
  \<^item> \<open>Lock\<close>, \<open>Unlock\<close>, \<open>RLock\<close>, \<open>RUnlock\<close>: the operations on \<^verbatim>\<open>world\<close>;
  \<^item> \<open>Checkmarks\<close>: the final \<^verbatim>\<open>checkmark\<close> calls of \<^verbatim>\<open>main\<close>;
  \<^item> \<open>Publish sptr\<close>: \<^verbatim>\<open>obj := ambReachableHeapPointer(); wbarrier(obj, sptr)\<close>;
  \<^item> \<open>BarrierMark val\<close>: \<^verbatim>\<open>mark(mem[val].l, marked, "barrier")\<close>;
  \<^item> \<open>Restart val\<close>: \<^verbatim>\<open>if !marked[val] { scanClock = 0 }\<close>;
  \<^item> \<open>Write slot val\<close>: \<^verbatim>\<open>mem[slot].l = mem[val].l\<close>;
  \<^item> \<open>Load sptr\<close>: \<^verbatim>\<open>obj = ambReachableHeapPointer(); mem[sptr].l = mem[obj].l\<close>.
\<close>

datatype instr =
    Mark ptr
  | MarkRight ptr
  | Sched
  | GoLoop nat
  | ScanLoop
  | Lock
  | Unlock
  | RLock
  | RUnlock
  | Checkmarks
  | Publish ptr
  | BarrierMark ptr
  | Restart ptr
  | Write ptr ptr
  | Load ptr

record state =
  mem :: "obj list"
  marked :: "bool list"
  scanClock :: nat
  world :: rwmutex
  threads :: "instr list list"
  cur :: "nat option"

text \<open>
  \<^verbatim>\<open>wbarrier(slot, val)\<close>: the policy code selected by the two switches, then the write and
  one call of \<^verbatim>\<open>sched.Sched\<close>.
\<close>

definition wbarrier :: "config \<Rightarrow> ptr \<Rightarrow> ptr \<Rightarrow> instr list" where
  "wbarrier cfg slot val =
     (if val \<noteq> 0
      then (if writeMarks cfg then [RLock, BarrierMark val, RUnlock] else [])
         @ (if writeRestarts cfg then [Restart val] else [])
      else [])
     @ [Write slot val, Sched]"

text \<open>\<^verbatim>\<open>mutator(id)\<close>, with \<^verbatim>\<open>sptr := stackBase + ptr(id)\<close>; the thread's id is \<open>tid\<close>.\<close>

definition mutator :: "nat \<Rightarrow> instr list" where
  "mutator tid = [Publish (stackBase + tid), Load (stackBase + tid), Sched]"

text \<open>The body of \<^verbatim>\<open>main\<close> after the memory has been built.\<close>

definition main_body :: "instr list" where
  "main_body = [Mark globalRoot, GoLoop 0, ScanLoop, Lock, Checkmarks, Unlock]"

text \<open>The checks at the end of \<^verbatim>\<open>main\<close>: the loop over the stacks, from index \<open>i\<close>.\<close>

function check_stacks :: "obj list \<Rightarrow> bool list \<Rightarrow> nat \<Rightarrow> fault + unit" where
  "check_stacks hp mk i =
     (if i < numThreads
      then (if \<not> stackBase + i < length hp then Inl IndexOutOfRange
            else (case checkmark hp mk (l (hp ! (stackBase + i))) of
                    Inl e \<Rightarrow> Inl e
                  | Inr u \<Rightarrow> check_stacks hp mk (i + 1)))
      else Inr ())"
  by pat_completeness auto
termination
  by (relation "measure (\<lambda>(hp, mk, i). numThreads - i)") auto

declare check_stacks.simps [simp del]

definition checkmarks :: "obj list \<Rightarrow> bool list \<Rightarrow> fault + unit" where
  "checkmarks hp mk =
     (case checkmark hp mk globalRoot of
        Inl e \<Rightarrow> Inl e
      | Inr u \<Rightarrow> check_stacks hp mk 0)"

text \<open>
  What one instruction does.  \<open>c\<close> is the engine's raw choice for a call of
  \<^verbatim>\<open>sched.Amb\<close>, \<open>k\<close> the code of the thread after the instruction.  The thread goes on
  (\<open>Continue\<close>), gives up the processor at \<^verbatim>\<open>sched.Sched\<close> (\<open>Yield\<close>), cannot take a lock
  (\<open>Wait\<close>), or the program panics (\<open>Panic\<close>).
\<close>

datatype action =
    Continue "instr list" state
  | Yield "instr list" state
  | Wait
  | Panic fault

fun exec :: "config \<Rightarrow> nat \<Rightarrow> instr \<Rightarrow> instr list \<Rightarrow> state \<Rightarrow> action" where
  "exec cfg c (Mark p) k s =
     (if p = 0 then Continue k s
      else if \<not> p < length (marked s) then Panic IndexOutOfRange
      else if marked s ! p then Continue k s
      else if \<not> p < length (mem s) then Panic IndexOutOfRange
      else Continue (Mark (l (mem s ! p)) # Sched # MarkRight p # Sched # k)
             (s\<lparr>marked := (marked s)[p := True]\<rparr>))"
| "exec cfg c (MarkRight p) k s =
     (if \<not> p < length (mem s) then Panic IndexOutOfRange
      else Continue (Mark (r (mem s ! p)) # k) s)"
| "exec cfg c Sched k s = Yield k s"
| "exec cfg c (GoLoop i) k s =
     (if i < numThreads
      then Continue (GoLoop (i + 1) # k) (s\<lparr>threads := threads s @ [mutator i]\<rparr>)
      else Continue k s)"
| "exec cfg c ScanLoop k s =
     (if scanClock s < numThreads
      then (let s1 = s\<lparr>scanClock := scanClock s + 1\<rparr>;
                sp = stackBase + (scanClock s1 - 1)
            in if \<not> sp < length (mem s1) then Panic IndexOutOfRange
               else Continue (Mark (l (mem s1 ! sp)) # ScanLoop # k) s1)
      else Continue k s)"
| "exec cfg c Lock k s =
     (if readers (world s) = 0 \<and> \<not> writer (world s)
      then Continue k (s\<lparr>world := (world s)\<lparr>writer := True\<rparr>\<rparr>)
      else Wait)"
| "exec cfg c Unlock k s =
     (if writer (world s)
      then Continue k (s\<lparr>world := (world s)\<lparr>writer := False\<rparr>\<rparr>)
      else Panic UnlockOfUnlocked)"
| "exec cfg c RLock k s =
     (if \<not> writer (world s)
      then Continue k (s\<lparr>world := (world s)\<lparr>readers := readers (world s) + 1\<rparr>\<rparr>)
      else Wait)"
| "exec cfg c RUnlock k s =
     (if readers (world s) = 0 then Panic UnlockOfUnlocked
      else Continue k (s\<lparr>world := (world s)\<lparr>readers := readers (world s) - 1\<rparr>\<rparr>))"
| "exec cfg c Checkmarks k s =
     (case checkmarks (mem s) (marked s) of
        Inl e \<Rightarrow> Panic e
      | Inr u \<Rightarrow> Continue k s)"
| "exec cfg c (Publish sptr) k s =
     (case ambReachableHeapPointer (mem s) c of
        Inl e \<Rightarrow> Panic e
      | Inr ob \<Rightarrow> Continue (wbarrier cfg ob sptr @ k) s)"
| "exec cfg c (BarrierMark val) k s =
     (if \<not> val < length (mem s) then Panic IndexOutOfRange
      else Continue (Mark (l (mem s ! val)) # k) s)"
| "exec cfg c (Restart val) k s =
     (if \<not> val < length (marked s) then Panic IndexOutOfRange
      else if \<not> marked s ! val then Continue k (s\<lparr>scanClock := 0\<rparr>)
      else Continue k s)"
| "exec cfg c (Write slot val) k s =
     (if \<not> val < length (mem s) \<or> \<not> slot < length (mem s) then Panic IndexOutOfRange
      else Continue k (s\<lparr>mem := (mem s)[slot := (mem s ! slot)\<lparr>l := l (mem s ! val)\<rparr>]\<rparr>))"
| "exec cfg c (Load sptr) k s =
     (case ambReachableHeapPointer (mem s) c of
        Inl e \<Rightarrow> Panic e
      | Inr ob \<Rightarrow>
          (if \<not> ob < length (mem s) \<or> \<not> sptr < length (mem s) then Panic IndexOutOfRange
           else Continue k (s\<lparr>mem := (mem s)[sptr := (mem s ! sptr)\<lparr>l := l (mem s ! ob)\<rparr>]\<rparr>)))"

text \<open>
  Modelled from the spec: the cooperative scheduler \<^verbatim>\<open>weave.Scheduler\<close> (not part of the
  sources).  One logical thread runs at a time; \<open>cur\<close> is the running thread, or \<open>None\<close>
  when the running thread has yielded, has blocked on the lock or has finished, in which
  case any thread may be resumed next.  \<open>step cfg t c s\<close> lets thread \<open>t\<close> run its next
  instruction with the choice \<open>c\<close>.
\<close>

datatype outcome =
    is_Blocked: Blocked
  | is_Fault: Fault (the_fault: fault)
  | is_Next: Next (the_state: state)

definition step :: "config \<Rightarrow> nat \<Rightarrow> nat \<Rightarrow> state \<Rightarrow> outcome" where
  "step cfg t c s =
     (if \<not> t < length (threads s) then Blocked
      else if cur s \<noteq> None \<and> cur s \<noteq> Some t then Blocked
      else (case threads s ! t of
              [] \<Rightarrow> Blocked
            | i # k \<Rightarrow>
                (case exec cfg c i k s of
                   Panic e \<Rightarrow> Fault e
                 | Wait \<Rightarrow> (if cur s = Some t then Next (s\<lparr>cur := None\<rparr>) else Blocked)
                 | Yield k' s' \<Rightarrow> Next (s'\<lparr>threads := (threads s')[t := k'], cur := None\<rparr>)
                 | Continue k' s' \<Rightarrow>
                     Next (s'\<lparr>threads := (threads s')[t := k'],
                              cur := (if k' = [] then None else Some t)\<rparr>))))"

text \<open>
  The start of a trial: \<^verbatim>\<open>main\<close> builds the ambiguous memory.  \<open>amb k\<close> is the engine's
  raw choice for the \<open>k\<close>-th call of \<^verbatim>\<open>sched.Amb\<close>; \<open>fill\<close> is the loop
  \<^verbatim>\<open>for i := 1; i < len(mem); i++\<close>.
\<close>

function fill :: "(nat \<Rightarrow> nat) \<Rightarrow> nat \<Rightarrow> nat \<Rightarrow> obj list \<Rightarrow> obj list" where
  "fill amb k i hp =
     (if i < length hp
      then (let hp1 = hp[i := (hp ! i)\<lparr>l := ambHeapPointer hp (amb k)\<rparr>]
            in if globalRoot \<le> i
               then fill amb (k + 2) (i + 1)
                      (hp1[i := (hp1 ! i)\<lparr>r := ambHeapPointer hp1 (amb (k + 1))\<rparr>])
               else fill amb (k + 1) (i + 1) hp1)
      else hp)"
  by pat_completeness auto
termination
  by (relation "measure (\<lambda>(amb, k, i, hp). length hp - i)") auto

declare fill.simps [simp del]

definition init_state :: "(nat \<Rightarrow> nat) \<Rightarrow> state" where
  "init_state amb =
     (let hp = fill amb 0 1 (replicate 6 \<lparr>l = 0, r = 0\<rparr>)
      in \<lparr>mem = hp, marked = replicate (length hp) False, scanClock = 0,
          world = \<lparr>readers = 0, writer = False\<rparr>, threads = [main_body], cur = Some 0\<rparr>)"

text \<open>The states a trial can be in.\<close>

inductive reachable :: "config \<Rightarrow> state \<Rightarrow> bool" for cfg :: config where
  init: "reachable cfg (init_state amb)"
| step: "reachable cfg s \<Longrightarrow> step cfg t c s = Next s' \<Longrightarrow> reachable cfg s'"

text \<open>
  A schedule is a list of pairs (thread, raw choice); \<open>run\<close> lets the threads step in
  that order and stops at the first step that is not taken.
\<close>

fun run :: "config \<Rightarrow> (nat \<times> nat) list \<Rightarrow> state \<Rightarrow> outcome" where
  "run cfg [] s = Next s"
| "run cfg (tc # sch) s =
     (case step cfg (fst tc) (snd tc) s of
        Next s' \<Rightarrow> run cfg sch s'
      | Blocked \<Rightarrow> Blocked
      | Fault e \<Rightarrow> Fault e)"

text \<open>Pointers into the heap region of a memory of \<open>n\<close> slots, or nil.\<close>

definition heap_ptr :: "nat \<Rightarrow> ptr \<Rightarrow> bool" where
  "heap_ptr n q = (q = 0 \<or> (globalRoot \<le> q \<and> q < n))"

definition ptrs_ok :: "obj list \<Rightarrow> bool" where
  "ptrs_ok hp = list_all (\<lambda>ob. heap_ptr (length hp) (l ob) \<and> heap_ptr (length hp) (r ob)) hp"

section \<open>Basic facts about the machine\<close>

lemma step_Next_cases:
  assumes "step cfg t c s = Next s'"
  obtains (wait) i k where "t < length (threads s)" "threads s ! t = i # k"
      "exec cfg c i k s = Wait" "cur s = Some t" "s' = s\<lparr>cur := None\<rparr>"
    | (yield) i k k' s1 where "t < length (threads s)" "threads s ! t = i # k"
      "cur s = None \<or> cur s = Some t"
      "exec cfg c i k s = Yield k' s1" "s' = s1\<lparr>threads := (threads s1)[t := k'], cur := None\<rparr>"
    | (continue) i k k' s1 where "t < length (threads s)" "threads s ! t = i # k"
      "cur s = None \<or> cur s = Some t"
      "exec cfg c i k s = Continue k' s1"
      "s' = s1\<lparr>threads := (threads s1)[t := k'], cur := (if k' = [] then None else Some t)\<rparr>"
proof -
  from assms have t: "t < length (threads s)" and cu: "cur s = None \<or> cur s = Some t"
    by (auto simp: step_def split: if_splits)
  from assms t cu obtain i k where ik: "threads s ! t = i # k"
    by (cases "threads s ! t") (auto simp: step_def split: if_splits)
  show thesis
  proof (cases "exec cfg c i k s")
    case (Continue k' s1)
    with assms t cu ik have "s' = s1\<lparr>threads := (threads s1)[t := k'],
        cur := (if k' = [] then None else Some t)\<rparr>"
      by (auto simp: step_def split: if_splits)
    with continue[OF t ik cu Continue] show ?thesis by blast
  next
    case (Yield k' s1)
    with assms t cu ik have "s' = s1\<lparr>threads := (threads s1)[t := k'], cur := None\<rparr>"
      by (auto simp: step_def split: if_splits)
    with yield[OF t ik cu Yield] show ?thesis by blast
  next
    case Wait
    with assms t cu ik have "cur s = Some t \<and> s' = s\<lparr>cur := None\<rparr>"
      by (auto simp: step_def split: if_splits)
    with wait[OF t ik Wait] show ?thesis by blast
  next
    case (Panic e)
    with assms t cu ik show ?thesis
      by (auto simp: step_def split: if_splits)
  qed
qed


lemma reachable_run:
  "reachable cfg s \<Longrightarrow> run cfg sch s = Next s' \<Longrightarrow> reachable cfg s'"
proof (induction sch arbitrary: s)
  case Nil
  then show ?case by simp
next
  case (Cons tc sch)
  then show ?case
    by (auto split: outcome.splits intro: reachable.step)
qed

text \<open>The part of the state that every reachable state keeps well formed.\<close>

definition basic :: "state \<Rightarrow> bool" where
  "basic s = (length (mem s) = 6 \<and> length (marked s) = 6 \<and> ptrs_ok (mem s)
              \<and> scanClock s \<le> numThreads)"

lemma ptrs_okD:
  "ptrs_ok hp \<Longrightarrow> i < length hp \<Longrightarrow>
     heap_ptr (length hp) (l (hp ! i)) \<and> heap_ptr (length hp) (r (hp ! i))"
  by (simp add: ptrs_ok_def list_all_length)

lemma ptrs_ok_wf: "ptrs_ok hp \<Longrightarrow> wf_mem hp"
  by (cases hp) (auto simp: ptrs_ok_def wf_mem_def list_all_length heap_ptr_def)

lemma ptrs_ok_update_l:
  "ptrs_ok hp \<Longrightarrow> heap_ptr (length hp) v \<Longrightarrow> ptrs_ok (hp[i := (hp ! i)\<lparr>l := v\<rparr>])"
  by (cases "i < length hp") (auto simp: ptrs_ok_def list_all_length nth_list_update)

lemma ptrs_ok_update_r:
  "ptrs_ok hp \<Longrightarrow> heap_ptr (length hp) v \<Longrightarrow> ptrs_ok (hp[i := (hp ! i)\<lparr>r := v\<rparr>])"
  by (cases "i < length hp") (auto simp: ptrs_ok_def list_all_length nth_list_update)

lemma ambHeapPointer_ok:
  "globalRoot \<le> length hp \<Longrightarrow> heap_ptr (length hp) (ambHeapPointer hp c)"
proof -
  assume a: "globalRoot \<le> length hp"
  define x where "x = Amb c (length hp + 1 - globalRoot)"
  have "x < length hp + 1 - globalRoot"
    unfolding x_def Amb_def using a by (intro mod_less_divisor) simp
  then have "x = 0 \<or> (globalRoot \<le> x - 1 + globalRoot \<and> x - 1 + globalRoot < length hp)"
    using a by arith
  moreover have "ambHeapPointer hp c = (if x = 0 then 0 else x - 1 + globalRoot)"
    unfolding ambHeapPointer_def x_def Let_def ..
  ultimately show ?thesis
    unfolding heap_ptr_def by presburger
qed

lemma fill_length: "length (fill amb k i hp) = length hp"
proof (induction amb k i hp rule: fill.induct)
  case (1 amb k i hp)
  show ?case
  proof (cases "i < length hp")
    case False
    then show ?thesis by (simp add: fill.simps[of amb k i hp])
  next
    case True
    define hp1 where "hp1 = hp[i := (hp ! i)\<lparr>l := ambHeapPointer hp (amb k)\<rparr>]"
    show ?thesis
    proof (cases "globalRoot \<le> i")
      case g: True
      from "1.IH"(1)[OF True hp1_def g] True g show ?thesis
        by (simp add: fill.simps[of amb k i hp] Let_def hp1_def)
    next
      case g: False
      from "1.IH"(2)[OF True hp1_def g] True g show ?thesis
        by (simp add: fill.simps[of amb k i hp] Let_def hp1_def)
    qed
  qed
qed

lemma fill_ptrs_ok:
  "ptrs_ok hp \<Longrightarrow> globalRoot \<le> length hp \<Longrightarrow> ptrs_ok (fill amb k i hp)"
proof (induction amb k i hp rule: fill.induct)
  case (1 amb k i hp)
  show ?case
  proof (cases "i < length hp")
    case False
    with "1.prems" show ?thesis by (simp add: fill.simps[of amb k i hp])
  next
    case True
    define hp1 where "hp1 = hp[i := (hp ! i)\<lparr>l := ambHeapPointer hp (amb k)\<rparr>]"
    define hp2 where "hp2 = hp1[i := (hp1 ! i)\<lparr>r := ambHeapPointer hp1 (amb (k + 1))\<rparr>]"
    have len1: "length hp1 = length hp" by (simp add: hp1_def)
    have ok1: "ptrs_ok hp1"
      unfolding hp1_def using "1.prems" by (intro ptrs_ok_update_l ambHeapPointer_ok)
    have ok2: "ptrs_ok hp2"
      unfolding hp2_def using ok1 "1.prems"(2) len1
      by (intro ptrs_ok_update_r ambHeapPointer_ok) simp_all
    show ?thesis
    proof (cases "globalRoot \<le> i")
      case g: True
      have "fill amb k i hp = fill amb (k + 2) (i + 1) hp2"
        using True g by (simp add: fill.simps[of amb k i hp] Let_def hp1_def hp2_def)
      moreover have "ptrs_ok (fill amb (k + 2) (i + 1) hp2)"
        using "1.IH"(1)[OF True hp1_def g] ok2 "1.prems"(2) len1 by (simp add: hp2_def)
      ultimately show ?thesis by simp
    next
      case g: False
      have "fill amb k i hp = fill amb (k + 1) (i + 1) hp1"
        using True g by (simp add: fill.simps[of amb k i hp] Let_def hp1_def)
      moreover have "ptrs_ok (fill amb (k + 1) (i + 1) hp1)"
        using "1.IH"(2)[OF True hp1_def g] ok1 "1.prems"(2) len1 by simp
      ultimately show ?thesis by simp
    qed
  qed
qed

lemma basic_init: "basic (init_state amb)"
proof -
  have "ptrs_ok (replicate 6 \<lparr>l = 0, r = 0\<rparr>)"
    by (simp add: ptrs_ok_def list_all_length heap_ptr_def)
  then have "ptrs_ok (fill amb 0 1 (replicate 6 \<lparr>l = 0, r = 0\<rparr>))"
    by (rule fill_ptrs_ok) (simp add: globalRoot_def stackBase_def numThreads_def)
  then show ?thesis
    by (simp add: basic_def init_state_def Let_def fill_length)
qed

text \<open>
  \<^verbatim>\<open>ambReachableHeapPointer\<close> on a well-formed memory that holds the global root: it
  returns a heap index that is reachable from the global root.
\<close>

lemma ambReachableHeapPointer_ok:
  assumes wf: "wf_mem hp" and g: "globalRoot < length hp"
  shows "\<exists>p. ambReachableHeapPointer hp c = Inr p \<and> globalRoot \<le> p \<and> p < length hp
              \<and> reach hp globalRoot p"
proof -
  from mark_total[OF wf _ g, of "replicate (length hp) False"]
  obtain rc where m: "mark hp globalRoot (replicate (length hp) False) = Inr rc"
    by auto
  have len: "length rc = length hp"
    using mark_length[OF m] by simp
  have g0: "globalRoot \<noteq> 0"
    by (simp add: globalRoot_def stackBase_def)
  have root: "rc ! globalRoot"
    using mark_root[OF m g0] .
  have "drop globalRoot rc ! 0 = rc ! globalRoot"
    using g len by simp
  with root have "True \<in> set (drop globalRoot rc)"
    using g len by (metis length_drop nth_mem zero_less_diff)
  then have pos: "0 < nreachable rc"
    by (auto simp: nreachable_def filter_empty_conv)
  then have "Amb c (nreachable rc) < length (filter (\<lambda>m. m) (drop globalRoot rc))"
    by (simp add: Amb_def nreachable_def)
  from select_some[OF this, of 0]
  obtain j where sel: "select (drop globalRoot rc) 0 (Amb c (nreachable rc)) = Some j"
    and j: "j < length (drop globalRoot rc)" and dj: "drop globalRoot rc ! j"
    by auto
  have res: "ambReachableHeapPointer hp c = Inr (globalRoot + j)"
    by (simp add: ambReachableHeapPointer_def m sel Let_def)
  have jr: "globalRoot + j < length hp" "rc ! (globalRoot + j)"
    using j dj len by auto
  have cl: "\<forall>q. (globalRoot, q) \<in> (edges hp)\<^sup>* \<longrightarrow> q \<noteq> 0 \<longrightarrow> q < length hp \<longrightarrow>
      (globalRoot, l (hp ! q)) \<in> (edges hp)\<^sup>* \<and> (globalRoot, r (hp ! q)) \<in> (edges hp)\<^sup>*"
    by (auto simp: edges_def intro: rtrancl_into_rtrancl)
  have "\<forall>i < length rc. rc ! i \<longrightarrow> (globalRoot, i) \<in> (edges hp)\<^sup>*"
    by (rule mark_sound[OF m cl]) simp_all
  with jr len have "(globalRoot, globalRoot + j) \<in> (edges hp)\<^sup>*"
    by simp
  with g0 have "reach hp globalRoot (globalRoot + j)"
    by (simp add: reach_def)
  with res jr show ?thesis by simp
qed

text \<open>Every instruction keeps the basic invariant and can only set mark bits.\<close>

lemma exec_basic:
  assumes "basic s"
    and "exec cfg c i k s = Continue k' s' \<or> exec cfg c i k s = Yield k' s'"
  shows "basic s'"
proof (cases i)
  case ScanLoop
  with assms show ?thesis
    by (auto simp: basic_def Let_def split: if_splits)
next
  case (Write slot val)
  with assms have r: "val < length (mem s)" "slot < length (mem s)"
    and s': "s' = s\<lparr>mem := (mem s)[slot := (mem s ! slot)\<lparr>l := l (mem s ! val)\<rparr>]\<rparr>"
    by (auto split: if_splits)
  from assms(1) r have "heap_ptr (length (mem s)) (l (mem s ! val))"
    using ptrs_okD[of "mem s" val] by (simp add: basic_def)
  with assms(1) s' show ?thesis
    by (simp add: basic_def ptrs_ok_update_l)
next
  case (Load sptr)
  with assms obtain ob where r: "ob < length (mem s)" "sptr < length (mem s)"
    and s': "s' = s\<lparr>mem := (mem s)[sptr := (mem s ! sptr)\<lparr>l := l (mem s ! ob)\<rparr>]\<rparr>"
    by (auto split: if_splits sum.splits)
  from assms(1) r have "heap_ptr (length (mem s)) (l (mem s ! ob))"
    using ptrs_okD[of "mem s" ob] by (simp add: basic_def)
  with assms(1) s' show ?thesis
    by (simp add: basic_def ptrs_ok_update_l)
qed (use assms in \<open>auto simp: basic_def split: if_splits sum.splits\<close>)

lemma exec_marked_mono:
  assumes "exec cfg c i k s = Continue k' s' \<or> exec cfg c i k s = Yield k' s'"
  shows "length (marked s') = length (marked s)
         \<and> (\<forall>p < length (marked s). marked s ! p \<longrightarrow> marked s' ! p)"
  using assms
  by (cases i) (auto simp: Let_def nth_list_update split: if_splits sum.splits)

lemma step_basic:
  assumes "basic s" and "step cfg t c s = Next s'"
  shows "basic s'"
  using assms(2)
proof (cases rule: step_Next_cases)
  case (wait i k)
  with assms(1) show ?thesis by (simp add: basic_def)
next
  case (yield i k k' s1)
  with exec_basic[of s cfg c i k k' s1] assms(1) show ?thesis by (simp add: basic_def)
next
  case (continue i k k' s1)
  with exec_basic[of s cfg c i k k' s1] assms(1) show ?thesis by (simp add: basic_def)
qed

lemma step_marked_mono:
  assumes "step cfg t c s = Next s'"
  shows "length (marked s') = length (marked s)
         \<and> (\<forall>p < length (marked s). marked s ! p \<longrightarrow> marked s' ! p)"
  using assms
proof (cases rule: step_Next_cases)
  case (wait i k)
  then show ?thesis by simp
next
  case (yield i k k' s1)
  with exec_marked_mono[of cfg c i k s k' s1] show ?thesis by simp
next
  case (continue i k k' s1)
  with exec_marked_mono[of cfg c i k s k' s1] show ?thesis by simp
qed

lemma reachable_basic: "reachable cfg s \<Longrightarrow> basic s"
  by (induction rule: reachable.induct) (auto intro: basic_init step_basic)


section \<open>A thread running on its own\<close>








section \<open>What a call of the mark engine marks\<close>

text \<open>
  \<open>marks_from hp p mk mk'\<close>: the mark array \<open>mk'\<close> extends \<open>mk\<close>, holds the root \<open>p\<close>
  (unless nil), and every index that is new in it is reachable from \<open>p\<close> and has both of
  its fields nil or marked.  Indices that were marked before are not looked into.
\<close>

definition marks_from :: "obj list \<Rightarrow> ptr \<Rightarrow> bool list \<Rightarrow> bool list \<Rightarrow> bool" where
  "marks_from hp p mk mk' =
     (length mk' = length mk
      \<and> (\<forall>q < length mk. mk ! q \<longrightarrow> mk' ! q)
      \<and> (p = 0 \<or> mk' ! p)
      \<and> (\<forall>q < length mk. mk' ! q \<and> \<not> mk ! q \<longrightarrow>
            reach hp p q
            \<and> (l (hp ! q) = 0 \<or> mk' ! (l (hp ! q)))
            \<and> (r (hp ! q) = 0 \<or> mk' ! (r (hp ! q)))))"


lemma marks_from_new:
  "marks_from hp p mk mk' \<Longrightarrow> q < length mk \<Longrightarrow> mk' ! q \<Longrightarrow> \<not> mk ! q \<Longrightarrow>
     reach hp p q \<and> (l (hp ! q) = 0 \<or> mk' ! (l (hp ! q))) \<and> (r (hp ! q) = 0 \<or> mk' ! (r (hp ! q)))"
  unfolding marks_from_def by blast



text \<open>
  If no marking is under way when the call is made (every marked object has its fields
  nil or marked) then the call leaves every object reachable from the root marked.
\<close>

lemma marks_from_all_reachable:
  assumes f: "marks_from hp p mk mk'" and wf: "wf_mem hp" and len: "length mk = length hp"
    and pr: "p < length hp"
    and cl: "\<forall>q < length mk. mk ! q \<longrightarrow>
              (l (hp ! q) = 0 \<or> mk ! (l (hp ! q))) \<and> (r (hp ! q) = 0 \<or> mk ! (r (hp ! q)))"
    and q: "reach hp p q"
  shows "mk' ! q"
proof -
  have mono: "\<And>x. x < length mk \<Longrightarrow> mk ! x \<Longrightarrow> mk' ! x"
    using f by (simp add: marks_from_def)
  have step: "\<And>x. x < length hp \<Longrightarrow> mk' ! x \<Longrightarrow>
      (l (hp ! x) = 0 \<or> mk' ! (l (hp ! x))) \<and> (r (hp ! x) = 0 \<or> mk' ! (r (hp ! x)))"
  proof -
    fix x assume x: "x < length hp" and mx: "mk' ! x"
    show "(l (hp ! x) = 0 \<or> mk' ! (l (hp ! x))) \<and> (r (hp ! x) = 0 \<or> mk' ! (r (hp ! x)))"
    proof (cases "mk ! x")
      case True
      with cl x len have "(l (hp ! x) = 0 \<or> mk ! (l (hp ! x))) \<and> (r (hp ! x) = 0 \<or> mk ! (r (hp ! x)))"
        by simp
      then show ?thesis
        using mono[of "l (hp ! x)"] mono[of "r (hp ! x)"] wf_memD[OF wf x] len by auto
    next
      case False
      from marks_from_new[OF f _ mx False] x len show ?thesis by simp
    qed
  qed
  from q have "(p, q) \<in> (edges hp)\<^sup>*" and q0: "q \<noteq> 0"
    by (auto simp: reach_def)
  then have "q = 0 \<or> (q < length hp \<and> mk' ! q)"
  proof (induction rule: rtrancl_induct)
    case base
    from f pr show ?case by (auto simp: marks_from_def)
  next
    case (step y z)
    from step.hyps(2) have y: "y \<noteq> 0" "y < length hp" and z: "z = l (hp ! y) \<or> z = r (hp ! y)"
      by (auto simp: edges_def)
    from step.IH y have "mk' ! y" by (auto simp: edges_def)
    from \<open>\<And>x. x < length hp \<Longrightarrow> mk' ! x \<Longrightarrow> _\<close>[OF y(2) this] z wf_memD[OF wf y(2)] show ?case
      by auto
  qed
  with q0 show ?thesis by blast
qed

section \<open>The rescanning loop on its own\<close>






section \<open>The write barrier on its own\<close>

lemma exec_keeps_mem:
  assumes "exec cfg c i k s = Continue k' s' \<or> exec cfg c i k s = Yield k' s'"
    and "\<forall>slot val. i \<noteq> Write slot val" and "\<forall>sptr. i \<noteq> Load sptr"
  shows "mem s' = mem s"
  using assms by (cases i) (auto simp: Let_def split: if_splits sum.splits)



section \<open>Example inputs\<close>

text \<open>
  A memory in which the global root 3 points to 4 and 4 points (right) to 5, with all of
  the heap marked; and a raw choice sequence that builds a memory in which stack slot 1
  points to 4 and object 4 points (right) to 5.
\<close>

definition ex_mem :: "obj list" where
  "ex_mem = [\<lparr>l = 0, r = 0\<rparr>, \<lparr>l = 4, r = 0\<rparr>, \<lparr>l = 0, r = 0\<rparr>,
             \<lparr>l = 4, r = 0\<rparr>, \<lparr>l = 0, r = 5\<rparr>, \<lparr>l = 0, r = 0\<rparr>]"

definition ex_marked :: "bool list" where
  "ex_marked = [False, False, False, True, True, True]"

definition ex_state :: state where
  "ex_state = \<lparr>mem = ex_mem, marked = ex_marked, scanClock = 1,
                world = \<lparr>readers = 0, writer = False\<rparr>,
                threads = [[Mark 4, ScanLoop, Lock, Checkmarks, Unlock]], cur = Some 0\<rparr>"

definition ex_amb :: "nat \<Rightarrow> nat" where
  "ex_amb k = (if k = 0 then 2 else if k = 5 then 3 else 0)"

definition restart_config :: config where
  "restart_config = \<lparr>writeMarks = False, writeRestarts = True\<rparr>"

text \<open>
  A trial under the policy of the source: the collector marks the root, starts the
  mutators, begins the scan of stack 0 and yields inside it (\<open>ex_s1\<close>); then mutator 0
  runs its write barrier up to and including the write (\<open>ex_s2\<close>).
\<close>

definition ex_s1 :: state where
  "ex_s1 = the_state (run source_config (replicate 13 (0, 0)) (init_state ex_amb))"

definition ex_s2 :: state where
  "ex_s2 = the_state (run source_config (replicate 6 (1, 0)) ex_s1)"

lemma ex_s1_run: "run source_config (replicate 13 (0, 0)) (init_state ex_amb) = Next ex_s1"
proof -
  have "is_Next (run source_config (replicate 13 (0, 0)) (init_state ex_amb))"
    by code_simp
  then show ?thesis
    by (simp add: ex_s1_def)
qed

lemma ex_s2_run: "run source_config (replicate 6 (1, 0)) ex_s1 = Next ex_s2"
proof -
  have "is_Next (run source_config (replicate 6 (1, 0)) ex_s1)"
    by code_simp
  then show ?thesis
    by (simp add: ex_s2_def)
qed

lemma ex_s1_reachable: "reachable source_config ex_s1"
  using reachable_run[OF reachable.init ex_s1_run] .

lemma ex_s2_reachable: "reachable source_config ex_s2"
  using reachable_run[OF ex_s1_reachable ex_s2_run] .








section \<open>The claims\<close>

text \<open>
  C6.  Marking is idempotent at the call boundary: a call of \<^verbatim>\<open>mark(p)\<close> with \<open>p\<close> nil or
  with the mark bit of \<open>p\<close> already set does nothing.  As an instruction of a thread it
  leaves the whole state as it is (no mark bit, no memory field changes) and the thread
  goes on with the code after the call without having yielded; as a function it returns
  the mark array it was given.
\<close>

theorem mark_marked_is_noop:
  assumes "p = 0 \<or> (p < length (marked s) \<and> marked s ! p)"
  shows "exec cfg c (Mark p) k s = Continue k s \<and> mark (mem s) p (marked s) = Inr (marked s)"
  using assms by (auto simp: mark.simps[of "mem s" p "marked s"])

theorem mark_marked_is_noop_witness:
  "4 < length (marked ex_state) \<and> marked ex_state ! 4
   \<and> exec source_config 0 (Mark 4) [ScanLoop] ex_state = Continue [ScanLoop] ex_state
   \<and> mark (mem ex_state) 4 (marked ex_state) = Inr (marked ex_state)"
proof -
  have h: "4 = (0::nat) \<or> (4 < length (marked ex_state) \<and> marked ex_state ! 4)"
    by (simp add: ex_state_def ex_marked_def)
  from mark_marked_is_noop[OF h, of source_config 0 "[ScanLoop]"] h show ?thesis
    by simp
qed

text \<open>
  C3.  On a well-formed memory, \<^verbatim>\<open>checkmark(p)\<close> returns normally exactly when every
  object reachable from \<open>p\<close> through left and right fields has its mark bit set; and when
  it panics, the panic is \<^verbatim>\<open>"object not marked"\<close> and names an index that is reachable
  from \<open>p\<close> and whose mark bit is false.  The walk keeps its own array
  \<^verbatim>\<open>checkmarked\<close>; it only reads \<^verbatim>\<open>mem\<close> and \<^verbatim>\<open>marked\<close> and returns nothing, so a
  normal return changes no state.
\<close>

theorem checkmark_iff_all_reachable_marked:
  assumes "wf_mem hp" and "length mk = length hp" and "p < length hp"
  shows "(checkmark hp mk p = Inr ()) = (\<forall>q. reach hp p q \<longrightarrow> mk ! q)
         \<and> (\<forall>e. checkmark hp mk p = Inl e \<longrightarrow>
               (\<exists>q. e = ObjectNotMarked q \<and> reach hp p q \<and> \<not> mk ! q))"
proof -
  have fail: "\<forall>e. checkmark hp mk p = Inl e \<longrightarrow>
               (\<exists>q. e = ObjectNotMarked q \<and> reach hp p q \<and> \<not> mk ! q)"
    using checkmark_fail[OF _ assms] by blast
  have "checkmark hp mk p = Inr () \<Longrightarrow> \<forall>q. reach hp p q \<longrightarrow> mk ! q"
    using checkmark_complete[OF _ assms(1)] by blast
  moreover have "\<forall>q. reach hp p q \<longrightarrow> mk ! q \<Longrightarrow> checkmark hp mk p = Inr ()"
  proof (cases "checkmark hp mk p")
    case (Inl e)
    assume "\<forall>q. reach hp p q \<longrightarrow> mk ! q"
    with fail Inl show ?thesis by blast
  next
    case (Inr u)
    then show ?thesis by simp
  qed
  ultimately show ?thesis
    using fail by blast
qed

theorem checkmark_iff_all_reachable_marked_witness:
  "wf_mem ex_mem \<and> length ex_marked = length ex_mem \<and> 3 < length ex_mem
   \<and> checkmark ex_mem ex_marked 3 = Inr ()
   \<and> (checkmark ex_mem ex_marked 3 = Inr ()) = (\<forall>q. reach ex_mem 3 q \<longrightarrow> ex_marked ! q)"
proof -
  have a: "wf_mem ex_mem" by code_simp
  have b: "length ex_marked = length ex_mem" by code_simp
  have c: "3 < length ex_mem" by code_simp
  have d: "checkmark ex_mem ex_marked 3 = Inr ()" by code_simp
  from checkmark_iff_all_reachable_marked[OF a b c] a b c d show ?thesis
    by blast
qed

text \<open>
  C2.  The scan-restart policy of the code tests the mark bit of the slot \<^verbatim>\<open>val\<close> that was
  passed to the barrier (\<^verbatim>\<open>marked[val]\<close>), not the mark bit of the object that \<^verbatim>\<open>val\<close>'s
  left field points to.  In the trial below, run under the scan-restart policy, mutator 0
  reaches its barrier \<^verbatim>\<open>wbarrier(3, 1)\<close> when stack slot 1 points to object 4, object 4 is
  already marked and the scan clock is 1; the barrier nevertheless resets the scan clock
  to zero.
\<close>

theorem restart_policy_tests_source_slot:
  "(case run restart_config (replicate 13 (0, 0) @ [(1, 0)]) (init_state ex_amb) of
      Next s \<Rightarrow>
        threads s ! 1 = wbarrier restart_config 3 1 @ [Load 1, Sched]
        \<and> wbarrier restart_config 3 1 = [Restart 1, Write 3 1, Sched]
        \<and> l (mem s ! 1) = 4 \<and> marked s ! 4 \<and> \<not> marked s ! 1 \<and> scanClock s = 1
        \<and> (case step restart_config 1 0 s of
              Next s' \<Rightarrow> scanClock s' = 0 \<and> threads s' ! 1 = [Write 3 1, Sched, Load 1, Sched]
            | Blocked \<Rightarrow> False
            | Fault e \<Rightarrow> False)
    | Blocked \<Rightarrow> False
    | Fault e \<Rightarrow> False)"
  by code_simp
text \<open>
  C8.  The global mark set is monotone for the whole of a trial: it starts all false,
  and whatever the threads do, in whatever order and with whatever choices, the array
  keeps its length and a bit that is set stays set.
\<close>

theorem marks_only_set:
  assumes "run cfg sch s = Next s'"
  shows "(\<forall>p < length (marked (init_state amb)). \<not> marked (init_state amb) ! p)
         \<and> length (marked s') = length (marked s)
         \<and> (\<forall>p < length (marked s). marked s ! p \<longrightarrow> marked s' ! p)"
proof -
  have "length (marked s') = length (marked s)
         \<and> (\<forall>p < length (marked s). marked s ! p \<longrightarrow> marked s' ! p)"
    using assms
  proof (induction sch arbitrary: s)
    case Nil
    then show ?case by simp
  next
    case (Cons tc sch)
    then obtain s1 where a: "step cfg (fst tc) (snd tc) s = Next s1"
      and b: "run cfg sch s1 = Next s'"
      by (auto split: outcome.splits)
    from step_marked_mono[OF a] Cons.IH[OF b] show ?case
      by auto
  qed
  then show ?thesis
    by (simp add: init_state_def Let_def)
qed

theorem marks_only_set_witness:
  "run source_config (replicate 6 (1, 0)) ex_s1 = Next ex_s2
   \<and> \<not> marked (init_state ex_amb) ! 4 \<and> marked ex_s1 ! 4 \<and> marked ex_s2 ! 4
   \<and> length (marked ex_s2) = length (marked ex_s1)"
proof -
  have a: "marked ex_s1 ! 4" by code_simp
  have b: "4 < length (marked ex_s1)" by code_simp
  have c: "4 < length (marked (init_state ex_amb))" by code_simp
  from marks_only_set[OF ex_s2_run, of ex_amb] a b c ex_s2_run show ?thesis
    by blast
qed

text \<open>
  C9.  In every reachable state of a trial, each pointer field of every slot is nil or
  an index of the heap region \<open>[globalRoot, len(mem))\<close>; so no field points to a stack
  slot.
\<close>

theorem pointer_fields_nil_or_heap:
  assumes "reachable cfg s" and "i < length (mem s)"
  shows "heap_ptr (length (mem s)) (l (mem s ! i)) \<and> heap_ptr (length (mem s)) (r (mem s ! i))
         \<and> \<not> (stackBase \<le> l (mem s ! i) \<and> l (mem s ! i) < globalRoot)
         \<and> \<not> (stackBase \<le> r (mem s ! i) \<and> r (mem s ! i) < globalRoot)"
proof -
  from reachable_basic[OF assms(1)] have "ptrs_ok (mem s)"
    by (simp add: basic_def)
  from ptrs_okD[OF this assms(2)] show ?thesis
    by (auto simp: heap_ptr_def stackBase_def)
qed

theorem pointer_fields_nil_or_heap_witness:
  "reachable source_config ex_s2 \<and> 3 < length (mem ex_s2) \<and> l (mem ex_s2 ! 3) = 4
   \<and> heap_ptr (length (mem ex_s2)) (l (mem ex_s2 ! 3))
   \<and> heap_ptr (length (mem ex_s2)) (r (mem ex_s2 ! 3))"
proof -
  have a: "3 < length (mem ex_s2)" by code_simp
  have b: "l (mem ex_s2 ! 3) = 4" by code_simp
  from pointer_fields_nil_or_heap[OF ex_s2_reachable a] ex_s2_reachable a b show ?thesis
    by blast
qed

text \<open>
  C10.  In every reachable state \<^verbatim>\<open>ambReachableHeapPointer\<close> returns, whatever the
  engine's choice: the scratch marking from the global root succeeds and marks the root,
  so at least one candidate is counted, the selection loop finds the chosen one, and the
  result is a heap index that is reachable from the global root.  The trailing
  \<^verbatim>\<open>panic("not reached")\<close> is never executed.
\<close>

theorem ambReachableHeapPointer_total:
  assumes "reachable cfg s"
  shows "(\<exists>rc. mark (mem s) globalRoot (replicate (length (mem s)) False) = Inr rc
              \<and> rc ! globalRoot \<and> 0 < nreachable rc)
         \<and> (\<exists>p. ambReachableHeapPointer (mem s) c = Inr p \<and> globalRoot \<le> p
                  \<and> p < length (mem s) \<and> reach (mem s) globalRoot p)
         \<and> ambReachableHeapPointer (mem s) c \<noteq> Inl NotReached"
proof -
  from reachable_basic[OF assms] have b: "length (mem s) = 6" "ptrs_ok (mem s)"
    by (simp_all add: basic_def)
  have wf: "wf_mem (mem s)" using ptrs_ok_wf[OF b(2)] .
  have g: "globalRoot < length (mem s)"
    using b(1) by (simp add: globalRoot_def stackBase_def numThreads_def)
  from ambReachableHeapPointer_ok[OF wf g, of c]
  have res: "\<exists>p. ambReachableHeapPointer (mem s) c = Inr p \<and> globalRoot \<le> p
                  \<and> p < length (mem s) \<and> reach (mem s) globalRoot p" .
  from mark_total[OF wf _ g, of "replicate (length (mem s)) False"]
  obtain rc where m: "mark (mem s) globalRoot (replicate (length (mem s)) False) = Inr rc"
    by auto
  have root: "rc ! globalRoot"
    using mark_root[OF m] by (simp add: globalRoot_def stackBase_def)
  have "length rc = length (mem s)" using mark_length[OF m] by simp
  with g root have "drop globalRoot rc ! 0" by simp
  moreover have "0 < length (drop globalRoot rc)"
    using g \<open>length rc = length (mem s)\<close> by simp
  ultimately have "True \<in> set (drop globalRoot rc)"
    by (metis nth_mem)
  then have "0 < nreachable rc"
    by (auto simp: nreachable_def filter_empty_conv)
  with m root res show ?thesis by auto
qed

theorem ambReachableHeapPointer_total_witness:
  "reachable source_config ex_s2
   \<and> ambReachableHeapPointer (mem ex_s2) 1 = Inr 4
   \<and> ambReachableHeapPointer (mem ex_s2) 1 \<noteq> Inl NotReached"
proof -
  have a: "ambReachableHeapPointer (mem ex_s2) 1 = Inr 4" by code_simp
  from ambReachableHeapPointer_total[OF ex_s2_reachable, of 1] ex_s2_reachable a show ?thesis
    by blast
qed








end
